theory Spec2Isabelle
  imports Complex_Main "HOL-Library.AList" "HOL-Library.Sublist" "HOL-Library.Stream"
begin

section \<open>Characters and strings\<close>

text \<open>
  Texts are Python \<open>str\<close> values, modelled as Isabelle strings: a character is the
  code point of its number, U+0000 to U+00FF. The character classes below are those
  of Python's \<open>str\<close> methods and of the \<open>re\<close> module on that range:
  \<open>str.isspace\<close>, \<open>str.strip\<close> and the class \<open>\s\<close> share one notion of whitespace;
  \<open>\w\<close> is the alphanumeric characters (\<open>str.isalnum\<close>) and the underscore.
\<close>

definition is_space :: "char \<Rightarrow> bool" where
  "is_space c =
     (c \<in> set [CHR 0x09, CHR 0x0A, CHR 0x0B, CHR 0x0C, CHR 0x0D,
                CHR 0x1C, CHR 0x1D, CHR 0x1E, CHR 0x1F, CHR '' '', CHR 0x85, CHR 0xA0])"

text \<open>
  The upper-case letters and, position by position, their lower-case forms: the
  letters of ASCII, then U+00C0 to U+00DE without the multiplication sign.
\<close>

definition upper_case :: string where
  "upper_case = ''ABCDEFGHIJKLMNOPQRSTUVWXYZ'' @
     [CHR 0xC0, CHR 0xC1, CHR 0xC2, CHR 0xC3, CHR 0xC4, CHR 0xC5, CHR 0xC6, CHR 0xC7,
      CHR 0xC8, CHR 0xC9, CHR 0xCA, CHR 0xCB, CHR 0xCC, CHR 0xCD, CHR 0xCE, CHR 0xCF,
      CHR 0xD0, CHR 0xD1, CHR 0xD2, CHR 0xD3, CHR 0xD4, CHR 0xD5, CHR 0xD6, CHR 0xD8,
      CHR 0xD9, CHR 0xDA, CHR 0xDB, CHR 0xDC, CHR 0xDD, CHR 0xDE]"

definition lower_case :: string where
  "lower_case = ''abcdefghijklmnopqrstuvwxyz'' @
     [CHR 0xE0, CHR 0xE1, CHR 0xE2, CHR 0xE3, CHR 0xE4, CHR 0xE5, CHR 0xE6, CHR 0xE7,
      CHR 0xE8, CHR 0xE9, CHR 0xEA, CHR 0xEB, CHR 0xEC, CHR 0xED, CHR 0xEE, CHR 0xEF,
      CHR 0xF0, CHR 0xF1, CHR 0xF2, CHR 0xF3, CHR 0xF4, CHR 0xF5, CHR 0xF6, CHR 0xF8,
      CHR 0xF9, CHR 0xFA, CHR 0xFB, CHR 0xFC, CHR 0xFD, CHR 0xFE]"

text \<open>
  The other word characters: the digits, the underscore, and the letters and numeric
  characters of U+00AA to U+00FF that have no case pair in the range.
\<close>

definition other_word :: string where
  "other_word = ''0123456789_'' @
     [CHR 0xAA, CHR 0xB2, CHR 0xB3, CHR 0xB5, CHR 0xB9, CHR 0xBA, CHR 0xBC, CHR 0xBD,
      CHR 0xBE, CHR 0xDF, CHR 0xFF]"

definition is_upper :: "char \<Rightarrow> bool" where
  "is_upper c = (c \<in> set upper_case)"

definition is_word :: "char \<Rightarrow> bool" where
  "is_word c = (c \<in> set upper_case \<or> c \<in> set lower_case \<or> c \<in> set other_word)"

definition lower_char :: "char \<Rightarrow> char" where
  "lower_char c = (case map_of (zip upper_case lower_case) c of None \<Rightarrow> c | Some l \<Rightarrow> l)"

definition upper_char :: "char \<Rightarrow> char" where
  "upper_char c = (case map_of (zip lower_case upper_case) c of None \<Rightarrow> c | Some u \<Rightarrow> u)"

definition lower :: "string \<Rightarrow> string" where
  "lower s = map lower_char s"

definition strip :: "string \<Rightarrow> string" where
  "strip s = rev (dropWhile is_space (rev (dropWhile is_space s)))"

text \<open>
  \<open>str.capitalize\<close>: the first character in title case, the rest in lower case. The
  sharp s (U+00DF) becomes \<open>Ss\<close>. The capitals of U+00B5 and U+00FF lie outside the
  range; the two are left as they are.
\<close>

definition capitalize :: "string \<Rightarrow> string" where
  "capitalize s =
     (case s of
        [] \<Rightarrow> []
      | c # cs \<Rightarrow> (if c = CHR 0xDF then ''Ss'' else [upper_char c]) @ lower cs)"

definition endswith :: "string \<Rightarrow> string \<Rightarrow> bool" where
  "endswith s suf = (length suf \<le> length s \<and> drop (length s - length suf) s = suf)"

definition join :: "string \<Rightarrow> string list \<Rightarrow> string" where
  "join sep xs = (case xs of [] \<Rightarrow> [] | y # ys \<Rightarrow> y @ concat (map (\<lambda>z. sep @ z) ys))"

section \<open>Regular expressions of the source\<close>

text \<open>
  \<open>re.split(r'(?<=[.!?])\s+', text)\<close>: a match starts at a whitespace character that
  directly follows one of \<open>.\<close>, \<open>!\<close>, \<open>?\<close> and takes the whole run of whitespace after
  it; the pieces between the matches are returned. The Boolean argument records whether
  the character just read is such a terminator, the second argument is the current
  piece, reversed.
\<close>

definition is_terminator :: "char \<Rightarrow> bool" where
  "is_terminator c = (c = CHR ''.'' \<or> c = CHR ''!'' \<or> c = CHR ''?'')"

function re_split :: "bool \<Rightarrow> string \<Rightarrow> string \<Rightarrow> string list" where
  "re_split p acc [] = [rev acc]"
| "re_split p acc (c # cs) =
     (if p \<and> is_space c then rev acc # re_split False [] (dropWhile is_space cs)
      else re_split (is_terminator c) (c # acc) cs)"
  by pat_completeness auto
termination
  by (relation "measure (\<lambda>(p, acc, cs). length cs)")
     (auto simp: le_imp_less_Suc length_dropWhile_le)

section \<open>Sentence splitter\<close>

definition split_sentences :: "string \<Rightarrow> string list" where
  "split_sentences text =
     (let text' = strip text;
          sentences = re_split False [] text'
      in map strip (filter (\<lambda>s. strip s \<noteq> []) sentences))"

text \<open>
  \<open>re.findall(r'\w+', s)\<close>: the maximal runs of word characters, left to right. The
  first argument is the run being read, reversed.
\<close>

fun findall_words :: "string \<Rightarrow> string \<Rightarrow> string list" where
  "findall_words acc [] = (if acc = [] then [] else [rev acc])"
| "findall_words acc (c # cs) =
     (if is_word c then findall_words (c # acc) cs
      else if acc = [] then findall_words [] cs
      else rev acc # findall_words [] cs)"

text \<open>
  \<open>re.findall(r"\w+|\W+", s)\<close>: the maximal runs of word characters and of other
  characters, alternating.
\<close>

fun findall_tokens :: "string \<Rightarrow> string \<Rightarrow> string list" where
  "findall_tokens acc [] = (if acc = [] then [] else [rev acc])"
| "findall_tokens acc (c # cs) =
     (case acc of
        [] \<Rightarrow> findall_tokens [c] cs
      | a # _ \<Rightarrow> if is_word a = is_word c then findall_tokens (c # acc) cs
                 else rev acc # findall_tokens [c] cs)"

text \<open>
  \<open>re.match(r'^\w+$', t)\<close>: a non-empty run of word characters up to the end of \<open>t\<close>,
  or up to a single final newline (which \<open>$\<close> also accepts).
\<close>

definition match_word :: "string \<Rightarrow> bool" where
  "match_word t =
     (let w = takeWhile is_word t; r = dropWhile is_word t
      in w \<noteq> [] \<and> (r = [] \<or> r = [CHR 0x0A]))"

section \<open>Python helpers\<close>

text \<open>The slice \<open>xs[:k]\<close>; a negative \<open>k\<close> counts from the end.\<close>

definition slice_to :: "int \<Rightarrow> 'a list \<Rightarrow> 'a list" where
  "slice_to k xs = (if k < 0 then take (nat (int (length xs) + k)) xs else take (nat k) xs)"

text \<open>\<open>d.get(key, default)\<close> on a dictionary kept as an association list.\<close>

definition dict_get :: "('k \<times> 'v) list \<Rightarrow> 'k \<Rightarrow> 'v \<Rightarrow> 'v" where
  "dict_get d key dflt = (case map_of d key of None \<Rightarrow> dflt | Some v \<Rightarrow> v)"

text \<open>
  \<open>sorted(xs, key=f, reverse=True)\<close>: descending by key, elements with equal keys in
  their original order.
\<close>

definition sorted_reverse :: "('a \<Rightarrow> real) \<Rightarrow> 'a list \<Rightarrow> 'a list" where
  "sorted_reverse f xs = sort_key (\<lambda>x. - f x) xs"

section \<open>Exceptions\<close>

datatype error = AttributeError | TypeError | ValueError | IndexError | OverflowError

section \<open>Floating point\<close>

text \<open>
  A Python float is an IEEE 754 double. A finite double is modelled by the real number
  it stands for. \<open>rnd\<close> rounds a real number to the nearest double, ties to the even
  significand, with gradual underflow: the result is a multiple of the unit in the last
  place of the number's binade, which is \<open>2 ^ (e - 52)\<close> for the binade of exponent
  \<open>e\<close> and never less than \<open>2 ^ (- 1074)\<close>. An operation whose rounded result lies
  beyond the largest double gives an infinity (\<open>to_double\<close>).
\<close>

datatype pyfloat = Fin real | PosInf | NegInf | NaN

definition round_even :: "real \<Rightarrow> int" where
  "round_even q =
     (let f = \<lfloor>q\<rfloor>; d = q - of_int f
      in if d < 1 / 2 then f else if 1 / 2 < d then f + 1 else if even f then f else f + 1)"

definition rnd :: "real \<Rightarrow> real" where
  "rnd x =
     (if x = 0 then 0
      else (let e = max \<lfloor>log 2 \<bar>x\<bar>\<rfloor> (- 1022); ulp = 2 powi (e - 52)
            in of_int (round_even (x / ulp)) * ulp))"

definition max_double :: real where
  "max_double = (2 ^ 53 - 1) * 2 ^ 971"

definition to_double :: "real \<Rightarrow> pyfloat" where
  "to_double x =
     (let y = rnd x
      in if max_double < y then PosInf else if y < - max_double then NegInf else Fin y)"


text \<open>The product \<open>a * x\<close> of a finite number and a float.\<close>

fun fmul :: "real \<Rightarrow> pyfloat \<Rightarrow> pyfloat" where
  "fmul a (Fin r) = to_double (a * r)"
| "fmul a PosInf = (if 0 < a then PosInf else if a < 0 then NegInf else NaN)"
| "fmul a NegInf = (if 0 < a then NegInf else if a < 0 then PosInf else NaN)"
| "fmul a NaN = NaN"

text \<open>\<open>math.ceil(x)\<close>: OverflowError on an infinity, ValueError on a NaN.\<close>

fun math_ceil :: "pyfloat \<Rightarrow> error + int" where
  "math_ceil (Fin y) = Inr \<lceil>y\<rceil>"
| "math_ceil PosInf = Inl OverflowError"
| "math_ceil NegInf = Inl OverflowError"
| "math_ceil NaN = Inl ValueError"

text \<open>The comparison \<open>r < x\<close> of a finite number with a float; false on a NaN.\<close>

fun less_float :: "real \<Rightarrow> pyfloat \<Rightarrow> bool" where
  "less_float r (Fin x) = (r < x)"
| "less_float r PosInf = True"
| "less_float r NegInf = False"
| "less_float r NaN = False"

section \<open>Summarizer\<close>

definition STOPWORDS :: "string set" where
  "STOPWORDS = set
     [''the'', ''and'', ''is'', ''in'', ''it'', ''of'', ''to'', ''a'', ''an'', ''that'', ''this'',
      ''on'', ''for'', ''with'', ''as'', ''are'', ''was'', ''were'',
      ''by'', ''be'', ''or'', ''from'', ''at'', ''which'', ''but'', ''not'', ''have'', ''has'',
      ''had'', ''they'', ''you'', ''we'', ''he'', ''she'', ''his'', ''her'']"

text \<open>One round of the counting loop: a stopword is skipped, any other word is counted.\<close>

definition count_word :: "string \<Rightarrow> (string \<times> nat) list \<Rightarrow> (string \<times> nat) list" where
  "count_word w freqs =
     (if w \<in> STOPWORDS then freqs else AList.update w (dict_get freqs w 0 + 1) freqs)"

definition word_counts :: "string list \<Rightarrow> (string \<times> nat) list" where
  "word_counts words = fold count_word words []"

definition normalize_freqs :: "(string \<times> nat) list \<Rightarrow> (string \<times> real) list" where
  "normalize_freqs freqs =
     (if freqs \<noteq> [] then
        (let maxf = Max (set (map snd freqs))
         in map (\<lambda>(w, c). (w, real c / real maxf)) freqs)
      else [])"

definition word_freqs :: "string \<Rightarrow> (string \<times> real) list" where
  "word_freqs text = normalize_freqs (word_counts (findall_words [] (lower text)))"

text \<open>
  \<open>word_freqs\<close> holds, for each word, the quotient of its count by the largest count,
  as a real number. The dictionary of the program holds that quotient as a float, which
  is its rounding: \<open>float_freqs\<close>. The scores are computed from the floats, every
  addition and the final division rounded. \<open>pow_half n\<close> stands for the float that
  \<open>n ** 0.5\<close> evaluates to; it is a parameter, as the power function of the C library
  decides it. For a sentence with words it is at least 1, so the division does not fail.
\<close>

definition float_freqs :: "string \<Rightarrow> (string \<times> real) list" where
  "float_freqs text = map (\<lambda>(w, q). (w, rnd q)) (word_freqs text)"

definition sentence_score :: "(nat \<Rightarrow> real) \<Rightarrow> (string \<times> real) list \<Rightarrow> string \<Rightarrow> real" where
  "sentence_score pow_half freqs s =
     (let s_words = findall_words [] (lower s);
          score = fold (\<lambda>w score. rnd (score + dict_get freqs w 0)) s_words 0
      in if s_words \<noteq> [] then rnd (score / pow_half (length s_words)) else 0)"

text \<open>
  \<open>math.ceil\<close> raises when \<open>len(sentences) * ratio\<close> is no finite number. A length
  is far below \<open>2 ^ 53\<close>, so its conversion to a float is exact.
\<close>

definition summarize_text ::
  "(nat \<Rightarrow> real) \<Rightarrow> string \<Rightarrow> pyfloat \<Rightarrow> int \<Rightarrow> error + string list" where
  "summarize_text pow_half text ratio min_sentences =
     (let sentences = split_sentences text
      in if int (length sentences) \<le> min_sentences then Inr sentences
         else
           (let freqs = float_freqs text;
                sent_scores = map (\<lambda>s. (s, sentence_score pow_half freqs s)) sentences
            in case math_ceil (fmul (real (length sentences)) ratio) of
                 Inl e \<Rightarrow> Inl e
               | Inr c \<Rightarrow>
                   (let k = max min_sentences c;
                        k' = min k (int (length sentences));
                        top_sentences = slice_to k' (sorted_reverse snd sent_scores);
                        chosen = set (map fst top_sentences)
                    in Inr (filter (\<lambda>s. s \<in> chosen) sentences))))"




definition sqrt_pow :: "nat \<Rightarrow> real" where
  "sqrt_pow n = rnd (sqrt (real n))"

section \<open>The random number generator\<close>

text \<open>
  The module \<open>random\<close> of Python's library keeps one generator for the whole process.
  Its state is an endless supply of raw draws, threaded through every function that
  uses it. \<open>random.random()\<close> is a 53-bit integer divided by \<open>2 ^ 53\<close>, so it lies in
  \<open>[0, 1)\<close>; an index below \<open>n\<close> is a draw reduced below \<open>n\<close>; \<open>random.choice\<close> raises
  IndexError on an empty sequence; \<open>random.shuffle\<close> swaps position \<open>i\<close> with a random
  position up to \<open>i\<close>, for \<open>i\<close> from the last index down to 1.
\<close>

type_synonym rng = "nat stream"

definition random_random :: "rng \<Rightarrow> real \<times> rng" where
  "random_random g = (real (shd g mod 2 ^ 53) / 2 ^ 53, stl g)"

definition randbelow :: "nat \<Rightarrow> rng \<Rightarrow> nat \<times> rng" where
  "randbelow n g = (shd g mod n, stl g)"

definition random_choice :: "'a list \<Rightarrow> rng \<Rightarrow> (error + 'a) \<times> rng" where
  "random_choice xs g =
     (if xs = [] then (Inl IndexError, g)
      else (let (i, g') = randbelow (length xs) g in (Inr (xs ! i), g')))"

fun shuffle_from :: "nat \<Rightarrow> 'a list \<Rightarrow> rng \<Rightarrow> 'a list \<times> rng" where
  "shuffle_from 0 xs g = (xs, g)"
| "shuffle_from (Suc i) xs g =
     (let (j, g') = randbelow (Suc i + 1) g
      in shuffle_from i (xs[Suc i := xs ! j, j := xs ! Suc i]) g')"

definition random_shuffle :: "'a list \<Rightarrow> rng \<Rightarrow> 'a list \<times> rng" where
  "random_shuffle xs g = shuffle_from (length xs - 1) xs g"

section \<open>Synonym resolver\<close>

text \<open>
  WordNet is outside the program. \<open>USE_NLTK\<close> records whether the import succeeded, and
  \<open>wn.synsets(word)\<close> either raises (the data is missing) or gives the synsets of the
  word, each one the list of its lemma names.
\<close>

datatype wn_result = Raises | Synsets "string list list"

definition FALLBACK_SYNS :: "(string \<times> string list) list" where
  "FALLBACK_SYNS =
     [(''good'', [''great'', ''nice'', ''excellent'', ''solid'']),
      (''bad'', [''poor'', ''subpar'', ''weak'']),
      (''important'', [''crucial'', ''vital'', ''key'']),
      (''use'', [''utilize'', ''employ'', ''apply'']),
      (''help'', [''assist'', ''aid'', ''support'']),
      (''show'', [''display'', ''present'', ''reveal'']),
      (''change'', [''modify'', ''alter'', ''transform'']),
      (''make'', [''create'', ''produce'', ''build'']),
      (''need'', [''require'', ''necessitate'']),
      (''find'', [''discover'', ''locate'']),
      (''get'', [''obtain'', ''acquire'']),
      (''big'', [''large'', ''substantial'', ''considerable'']),
      (''small'', [''tiny'', ''compact'', ''minor'']),
      (''start'', [''begin'', ''commence'', ''initiate''])]"

definition lemma_name :: "string \<Rightarrow> string" where
  "lemma_name l = map (\<lambda>c. if c = CHR ''_'' then CHR '' '' else c) l"

text \<open>
  The WordNet attempt: the first lemma name, over all synsets in order, that differs
  from the word and has no space; failing that, the first lemma of the first synset.
  \<open>None\<close> is every way of falling through to the fallback: no synsets, or an exception
  (all are caught), such as the first synset having no lemma.
\<close>

definition wordnet_synonym :: "(string \<Rightarrow> wn_result) \<Rightarrow> string \<Rightarrow> string option" where
  "wordnet_synonym synsets word =
     (case synsets word of
        Raises \<Rightarrow> None
      | Synsets ss \<Rightarrow>
          (case find (\<lambda>name. lower name \<noteq> word \<and> CHR '' '' \<notin> set name)
                     (map lemma_name (concat ss)) of
             Some name \<Rightarrow> Some name
           | None \<Rightarrow>
               (case ss of
                  [] \<Rightarrow> None
                | s # _ \<Rightarrow> (case s of [] \<Rightarrow> None | l # _ \<Rightarrow> Some (lemma_name l)))))"

definition synonym_for ::
  "bool \<Rightarrow> (string \<Rightarrow> wn_result) \<Rightarrow> string \<Rightarrow> rng \<Rightarrow> (error + string) \<times> rng" where
  "synonym_for USE_NLTK synsets word g =
     (case (if USE_NLTK then wordnet_synonym synsets word else None) of
        Some name \<Rightarrow> (Inr name, g)
      | None \<Rightarrow>
          (case map_of FALLBACK_SYNS (lower word) of
             Some syns \<Rightarrow> random_choice syns g
           | None \<Rightarrow>
               if endswith word ''ing'' \<and> length word > 4 then (Inr (slice_to (- 3) word), g)
               else (Inr word, g)))"

section \<open>Paraphraser\<close>

definition append_result :: "'a \<Rightarrow> (error + 'a list) \<times> rng \<Rightarrow> (error + 'a list) \<times> rng" where
  "append_result x res = (case res of (Inl e, g) \<Rightarrow> (Inl e, g) | (Inr xs, g) \<Rightarrow> (Inr (x # xs), g))"

text \<open>
  The loop over the tokens of one sentence; an exception ends it. The literal \<open>0.2\<close>
  of the source is the float nearest to one fifth.
\<close>

fun paraphrase_tokens ::
  "bool \<Rightarrow> (string \<Rightarrow> wn_result) \<Rightarrow> pyfloat \<Rightarrow> string list \<Rightarrow> rng
     \<Rightarrow> (error + string list) \<times> rng" where
  "paraphrase_tokens USE_NLTK synsets strength [] g = (Inr [], g)"
| "paraphrase_tokens USE_NLTK synsets strength (t # ts) g =
     (if match_word t then
        (let (r, g1) = random_random g
         in if less_float r strength then
              (case synonym_for USE_NLTK synsets (lower t) g1 of
                 (Inl e, g2) \<Rightarrow> (Inl e, g2)
               | (Inr candidate, g2) \<Rightarrow>
                   append_result
                     (if (case t of [] \<Rightarrow> False | c # _ \<Rightarrow> is_upper c) then capitalize candidate
                      else candidate)
                     (paraphrase_tokens USE_NLTK synsets strength ts g2))
            else append_result t (paraphrase_tokens USE_NLTK synsets strength ts g1))
      else append_result t (paraphrase_tokens USE_NLTK synsets strength ts g))"

text \<open>The loop over the sentences.\<close>

fun paraphrase_sentences ::
  "bool \<Rightarrow> (string \<Rightarrow> wn_result) \<Rightarrow> pyfloat \<Rightarrow> string list \<Rightarrow> rng
     \<Rightarrow> (error + string list) \<times> rng" where
  "paraphrase_sentences USE_NLTK synsets strength [] g = (Inr [], g)"
| "paraphrase_sentences USE_NLTK synsets strength (s # ss) g =
     (case paraphrase_tokens USE_NLTK synsets strength (findall_tokens [] s) g of
        (Inl e, g1) \<Rightarrow> (Inl e, g1)
      | (Inr new_tokens, g1) \<Rightarrow>
          append_result (concat new_tokens)
            (paraphrase_sentences USE_NLTK synsets strength ss g1))"

definition paraphrase_text ::
  "bool \<Rightarrow> (string \<Rightarrow> wn_result) \<Rightarrow> string \<Rightarrow> pyfloat \<Rightarrow> rng \<Rightarrow> (error + string) \<times> rng" where
  "paraphrase_text USE_NLTK synsets text strength g =
     (let sentences = split_sentences text
      in case paraphrase_sentences USE_NLTK synsets strength sentences g of
           (Inl e, g1) \<Rightarrow> (Inl e, g1)
         | (Inr paraphrased, g1) \<Rightarrow>
             if length paraphrased > 1 then
               (let (r, g2) = random_random g1
                in if less_float r (fmul (rnd (1 / 5)) strength) then
                     (let (shuffled, g3) = random_shuffle paraphrased g2
                      in (Inr (join '' '' shuffled), g3))
                   else (Inr (join '' '' paraphrased), g2))
             else (Inr (join '' '' paraphrased), g1))"

section \<open>HTTP endpoints\<close>












section \<open>Properties of the sentence splitter\<close>

lemma last_dropWhile_eq: "dropWhile P xs \<noteq> [] \<Longrightarrow> last (dropWhile P xs) = last xs"
  by (induction xs) (auto split: if_splits)

lemma strip_last: "strip s \<noteq> [] \<Longrightarrow> \<not> is_space (last (strip s))"
  unfolding strip_def by (simp add: last_rev hd_dropWhile)

lemma strip_hd:
  assumes "strip s \<noteq> []"
  shows "\<not> is_space (hd (strip s))"
proof -
  let ?t = "dropWhile is_space s"
  from assms have ne: "dropWhile is_space (rev ?t) \<noteq> []"
    by (simp add: strip_def)
  have "?t \<noteq> []"
  proof
    assume "?t = []"
    with ne show False by simp
  qed
  then have h: "\<not> is_space (hd ?t)"
    by (rule hd_dropWhile)
  have "hd (strip s) = last (dropWhile is_space (rev ?t))"
    using ne by (simp add: strip_def hd_rev)
  also have "\<dots> = last (rev ?t)"
    using ne by (rule last_dropWhile_eq)
  also have "\<dots> = hd ?t"
    using \<open>?t \<noteq> []\<close> by (simp add: last_rev)
  finally show ?thesis
    using h by simp
qed

lemmas char_class_defs =
  is_space_def is_upper_def is_word_def is_terminator_def
  lower_char_def upper_char_def upper_case_def lower_case_def other_word_def

lemmas split_sentences_eval = split_sentences_def strip_def char_class_defs

text \<open>
  C9. Every sentence that \<open>split_sentences\<close> returns is non-empty, and neither its
  first nor its last character is whitespace.
\<close>

theorem split_sentences_stripped:
  "s \<in> set (split_sentences text) \<Longrightarrow>
     s \<noteq> [] \<and> \<not> is_space (hd s) \<and> \<not> is_space (last s)"
  by (auto simp: split_sentences_def Let_def strip_hd strip_last)

theorem split_sentences_stripped_witness:
  "''Hi.'' \<in> set (split_sentences '' Hi.  Yo! '') \<and>
   ''Hi.'' \<noteq> [] \<and> \<not> is_space (hd ''Hi.'') \<and> \<not> is_space (last ''Hi.'')"
proof -
  have m: "''Hi.'' \<in> set (split_sentences '' Hi.  Yo! '')"
    by (simp add: split_sentences_eval)
  show ?thesis
    using m split_sentences_stripped [OF m] by simp
qed

section \<open>Evaluating the rounding\<close>

lemma round_even_of_int: "round_even (of_int n) = n"
  by (simp add: round_even_def)

lemma rnd_zero: "rnd 0 = 0"
  by (simp add: rnd_def)

lemma rnd_exact:
  assumes x: "x = of_int n * 2 powi (e - 52)"
    and lo: "2 powi e \<le> \<bar>x\<bar>" and hi: "\<bar>x\<bar> < 2 powi (e + 1)" and e: "- 1022 \<le> e"
  shows "rnd x = x"
proof -
  have pos: "0 < \<bar>x\<bar>"
    using lo by (smt (verit) zero_less_power_int)
  then have nz: "x \<noteq> 0" by simp
  have p1: "(2::real) powr real_of_int e = 2 powi e"
    by (rule powr_real_of_int') simp_all
  have p2: "(2::real) powr real_of_int (e + 1) = 2 powi (e + 1)"
    by (rule powr_real_of_int') simp_all
  have "(\<lfloor>log 2 \<bar>x\<bar>\<rfloor> = e) =
      (2 powr real_of_int e \<le> \<bar>x\<bar> \<and> \<bar>x\<bar> < 2 powr real_of_int (e + 1))"
    using pos by (intro floor_log_eq_powr_iff) simp_all
  then have "\<lfloor>log 2 \<bar>x\<bar>\<rfloor> = e"
    unfolding p1 p2 using lo hi by simp
  then have m: "max \<lfloor>log 2 \<bar>x\<bar>\<rfloor> (- 1022) = e"
    using e by simp
  have q: "x / 2 powi (e - 52) = of_int n"
    using x by simp
  show ?thesis
    using nz by (simp add: rnd_def m q round_even_of_int Let_def x [symmetric])
qed

lemma rnd_1: "rnd 1 = 1"
  by (rule rnd_exact [where n = "2 ^ 52" and e = 0]) simp_all

lemma rnd_2: "rnd 2 = 2"
  by (rule rnd_exact [where n = "2 ^ 52" and e = 1]) simp_all

lemma rnd_3: "rnd 3 = 3"
  by (rule rnd_exact [where n = "3 * 2 ^ 51" and e = 1]) simp_all

lemma rnd_3_2: "rnd (3 / 2) = 3 / 2"
  by (rule rnd_exact [where n = "3 * 2 ^ 51" and e = 0]) simp_all

lemma to_double_1: "to_double 1 = Fin 1"
  by (simp add: to_double_def rnd_1 max_double_def)

lemma to_double_zero: "to_double 0 = Fin 0"
  by (simp add: to_double_def rnd_def max_double_def)

lemma round_even_ge: "of_int n \<le> q \<Longrightarrow> n \<le> round_even q"
proof -
  assume "of_int n \<le> q"
  then have "n \<le> \<lfloor>q\<rfloor>" by (simp add: le_floor_iff)
  then show ?thesis by (simp add: round_even_def Let_def)
qed

lemma round_even_le: "q \<le> of_int n \<Longrightarrow> round_even q \<le> n"
proof -
  assume le: "q \<le> of_int n"
  then have f: "\<lfloor>q\<rfloor> \<le> n" by (simp add: floor_le_iff)
  show ?thesis
  proof (cases "q = of_int \<lfloor>q\<rfloor>")
    case True
    then have "q - of_int \<lfloor>q\<rfloor> = 0" by simp
    then show ?thesis using f by (simp add: round_even_def Let_def)
  next
    case False
    then have "of_int \<lfloor>q\<rfloor> < q" by (metis of_int_floor_le order_le_less)
    with le have "of_int \<lfloor>q\<rfloor> < (of_int n :: real)" by linarith
    then have "\<lfloor>q\<rfloor> + 1 \<le> n" by simp
    with f show ?thesis by (simp add: round_even_def Let_def)
  qed
qed

lemma rnd_unit_interval:
  assumes pos: "0 < y" and le: "y \<le> 1"
  shows "0 \<le> rnd y \<and> rnd y \<le> 1 \<and> (2 powi (- 1074) \<le> y \<longrightarrow> 0 < rnd y)"
proof (cases "y = 1")
  case True
  then show ?thesis by (simp add: rnd_1)
next
  case False
  with le have lt: "y < 1" by simp
  define e0 where "e0 = \<lfloor>log 2 y\<rfloor>"
  define e where "e = max e0 (- 1022)"
  define ulp :: real where "ulp = 2 powi (e - 52)"
  have p1: "(2::real) powr real_of_int e0 = 2 powi e0"
    by (rule powr_real_of_int') simp_all
  have p2: "(2::real) powr real_of_int (e0 + 1) = 2 powi (e0 + 1)"
    by (rule powr_real_of_int') simp_all
  have iff: "(\<lfloor>log 2 y\<rfloor> = e0) =
      (2 powr real_of_int e0 \<le> y \<and> y < 2 powr real_of_int (e0 + 1))"
    using pos by (intro floor_log_eq_powr_iff) simp_all
  have "\<lfloor>log 2 y\<rfloor> = e0" by (simp add: e0_def)
  with iff have "2 powr real_of_int e0 \<le> y \<and> y < 2 powr real_of_int (e0 + 1)"
    by blast
  then have lo: "2 powi e0 \<le> y" and hi: "y < 2 powi (e0 + 1)"
    unfolding p1 p2 by blast+
  have "log 2 y < 0" using pos lt by simp
  then have e0neg: "e0 \<le> - 1" by (simp add: e0_def floor_le_iff)
  then have eneg: "e \<le> - 1" and ege: "e0 \<le> e" by (simp_all add: e_def)
  have upos: "0 < ulp" by (simp add: ulp_def)
  have rn: "rnd y = of_int (round_even (y / ulp)) * ulp"
    using pos by (simp add: rnd_def Let_def e0_def e_def ulp_def)
  have top: "2 powi (e + 1) = 2 ^ 53 * ulp"
    by (simp add: ulp_def power_int_add power_int_diff)
  have "2 powi (e0 + 1) \<le> (2::real) powi (e + 1)"
    using ege by (intro power_int_increasing) simp_all
  with hi top have "y / ulp \<le> 2 ^ 53"
    using upos by (simp add: pos_divide_le_eq)
  then have "y / ulp \<le> of_int (2 ^ 53)" by simp
  then have "round_even (y / ulp) \<le> 2 ^ 53" by (rule round_even_le)
  then have "of_int (round_even (y / ulp)) \<le> (2 ^ 53 :: real)"
    by (metis of_int_le_iff of_int_numeral of_int_power)
  then have "rnd y \<le> 2 ^ 53 * ulp"
    using upos by (simp add: rn)
  also have "\<dots> = 2 powi (e + 1)" by (simp add: top)
  also have "\<dots> \<le> 2 powi 0"
    using eneg by (intro power_int_increasing) simp_all
  finally have ub: "rnd y \<le> 1" by simp
  have "of_int 0 \<le> y / ulp" using pos upos by simp
  then have "0 \<le> round_even (y / ulp)" by (rule round_even_ge)
  then have lb: "0 \<le> rnd y" using upos by (simp add: rn)
  have ps: "0 < rnd y" if m: "2 powi (- 1074) \<le> y"
  proof -
    have "ulp \<le> y"
    proof (cases "e0 \<le> - 1022")
      case True
      then have "ulp = 2 powi (- 1074)" by (simp add: ulp_def e_def)
      with m show ?thesis by simp
    next
      case False
      then have "e = e0" by (simp add: e_def)
      then have "ulp \<le> 2 powi e0"
        unfolding ulp_def by (intro power_int_increasing) simp_all
      with lo show ?thesis by simp
    qed
    then have "of_int 1 \<le> y / ulp" using upos by (simp add: pos_le_divide_eq)
    then have "1 \<le> round_even (y / ulp)" by (rule round_even_ge)
    then show ?thesis using upos by (simp add: rn)
  qed
  from lb ub ps show ?thesis by blast
qed

lemma rnd_in_binade:
  assumes lo: "2 powi e \<le> \<bar>x\<bar>" and hi: "\<bar>x\<bar> < 2 powi (e + 1)" and e: "- 1022 \<le> e"
  shows "rnd x = of_int (round_even (x / 2 powi (e - 52))) * 2 powi (e - 52)"
proof -
  have pos: "0 < \<bar>x\<bar>"
    using lo by (smt (verit) zero_less_power_int)
  then have nz: "x \<noteq> 0" by simp
  have p1: "(2::real) powr real_of_int e = 2 powi e"
    by (rule powr_real_of_int') simp_all
  have p2: "(2::real) powr real_of_int (e + 1) = 2 powi (e + 1)"
    by (rule powr_real_of_int') simp_all
  have "(\<lfloor>log 2 \<bar>x\<bar>\<rfloor> = e) =
      (2 powr real_of_int e \<le> \<bar>x\<bar> \<and> \<bar>x\<bar> < 2 powr real_of_int (e + 1))"
    using pos by (intro floor_log_eq_powr_iff) simp_all
  then have "\<lfloor>log 2 \<bar>x\<bar>\<rfloor> = e"
    unfolding p1 p2 using lo hi by simp
  then have "max \<lfloor>log 2 \<bar>x\<bar>\<rfloor> (- 1022) = e"
    using e by simp
  then show ?thesis
    using nz by (simp add: rnd_def Let_def)
qed

text \<open>
  The literal \<open>0.2\<close> is a double slightly above one fifth. Five times that double is
  above 1 as a real number, with ceiling 2, and rounds to 1 as a product of doubles,
  with ceiling 1: for five sentences and the ratio \<open>0.2\<close> one sentence is kept.
\<close>

lemma rnd_fifth: "rnd (1 / 5) = 3602879701896397 / 2 ^ 54"
proof -
  have "rnd (1 / 5) = of_int (round_even ((1 / 5) / 2 powi (- 3 - 52))) * 2 powi (- 3 - 52)"
    by (rule rnd_in_binade) simp_all
  also have "(1 / 5) / 2 powi (- 3 - 52) = (36028797018963968 / 5 :: real)"
    by simp
  also have "round_even (36028797018963968 / 5) = 7205759403792794"
    by (simp add: round_even_def Let_def)
  finally show ?thesis by simp
qed

lemma ceil_five_fifths: "math_ceil (fmul (real 5) (Fin (rnd (1 / 5)))) = Inr 1"
proof -
  have "rnd (5 * (3602879701896397 / 2 ^ 54)) =
      of_int (round_even ((5 * (3602879701896397 / 2 ^ 54)) / 2 powi (0 - 52))) * 2 powi (0 - 52)"
    by (rule rnd_in_binade) simp_all
  also have "(5 * (3602879701896397 / 2 ^ 54)) / 2 powi (0 - 52) = (18014398509481985 / 4 :: real)"
    by simp
  also have "round_even (18014398509481985 / 4) = 4503599627370496"
    by (simp add: round_even_def Let_def)
  finally have "rnd (5 * (3602879701896397 / 2 ^ 54)) = 1" by simp
  then show ?thesis
    by (simp add: rnd_fifth to_double_def max_double_def)
qed

lemma exact_five_fifths: "\<lceil>real 5 * (3602879701896397 / 2 ^ 54)\<rceil> = 2"
  by (simp add: ceiling_eq_iff)

section \<open>The frequency table\<close>

lemma distinct_count_word: "distinct (map fst f) \<Longrightarrow> distinct (map fst (count_word w f))"
  by (simp add: count_word_def distinct_update)

lemma map_of_count_word:
  "map_of (count_word w f) v =
     (if w \<notin> STOPWORDS \<and> v = w then Some (dict_get f w 0 + 1) else map_of f v)"
  by (simp add: count_word_def update_conv')

lemma dict_get_count_word:
  "dict_get (count_word w f) v 0 = (if w \<notin> STOPWORDS \<and> v = w then dict_get f w 0 + 1 else dict_get f v 0)"
  by (simp add: dict_get_def map_of_count_word)

lemma distinct_fold_count_word:
  "distinct (map fst f) \<Longrightarrow> distinct (map fst (fold count_word ws f))"
  by (induction ws arbitrary: f) (simp_all add: distinct_count_word)

lemma map_of_fold_count_word:
  "map_of (fold count_word ws f) v =
     (if v \<notin> STOPWORDS \<and> v \<in> set ws then Some (dict_get f v 0 + count_list ws v)
      else map_of f v)"
proof (induction ws arbitrary: f)
  case Nil
  show ?case by simp
next
  case (Cons w ws)
  show ?case
    by (auto simp: Cons.IH map_of_count_word dict_get_count_word dict_get_def)
qed

lemma map_of_word_counts:
  "map_of (word_counts ws) v =
     (if v \<notin> STOPWORDS \<and> v \<in> set ws then Some (count_list ws v) else None)"
  by (simp add: word_counts_def map_of_fold_count_word dict_get_def)

lemma distinct_word_counts: "distinct (map fst (word_counts ws))"
  by (simp add: word_counts_def distinct_fold_count_word)

lemma count_list_pos: "v \<in> set ws \<Longrightarrow> 0 < count_list ws v"
  by (induction ws) auto

lemma word_counts_entry:
  assumes "(v, c) \<in> set (word_counts ws)"
  shows "v \<notin> STOPWORDS \<and> v \<in> set ws \<and> c = count_list ws v \<and> 0 < c"
proof -
  have "map_of (word_counts ws) v = Some c"
    using assms distinct_word_counts by simp
  then have a: "v \<notin> STOPWORDS \<and> v \<in> set ws \<and> c = count_list ws v"
    by (auto simp: map_of_word_counts split: if_splits)
  then have "0 < count_list ws v"
    by (simp add: count_list_pos)
  with a show ?thesis by simp
qed

lemma normalize_entry:
  assumes "(v, x) \<in> set (normalize_freqs f)"
  shows "\<exists>c. (v, c) \<in> set f \<and> x = real c / real (Max (set (map snd f)))"
  using assms by (auto simp: normalize_freqs_def Let_def split: if_splits)

lemma normalize_nonempty: "(normalize_freqs f = []) = (f = [])"
  by (simp add: normalize_freqs_def Let_def)

lemma snd_le_Max: "(v, c) \<in> set f \<Longrightarrow> c \<le> Max (set (map snd f))"
  by (rule Max_ge) (auto intro: rev_image_eqI)

lemma map_of_normalize:
  "map_of (normalize_freqs f) v = map_option (\<lambda>c. real c / real (Max (set (map snd f)))) (map_of f v)"
proof (cases "f = []")
  case True
  then show ?thesis by (simp add: normalize_freqs_def)
next
  case False
  have "map_of (map (\<lambda>(w, c). (w, g c)) f) v = map_option g (map_of f v)" for g :: "nat \<Rightarrow> real"
    by (induction f) auto
  with False show ?thesis
    by (simp add: normalize_freqs_def Let_def)
qed

lemma word_freqs_entry:
  assumes "(v, x) \<in> set (word_freqs text)"
  shows "v \<notin> STOPWORDS \<and> 0 < x \<and> x \<le> 1"
proof -
  let ?f = "word_counts (findall_words [] (lower text))"
  from assms obtain c where c: "(v, c) \<in> set ?f" and x: "x = real c / real (Max (set (map snd ?f)))"
    unfolding word_freqs_def by (blast dest: normalize_entry)
  from word_counts_entry [OF c] have v: "v \<notin> STOPWORDS" and pos: "0 < c" by simp_all
  from snd_le_Max [OF c] have le: "c \<le> Max (set (map snd ?f))" .
  with pos have "0 < Max (set (map snd ?f))" by linarith
  with pos le x v show ?thesis by simp
qed

lemma word_freqs_max:
  assumes "word_freqs text \<noteq> []"
  shows "Max (snd ` set (word_freqs text)) = 1"
proof -
  let ?f = "word_counts (findall_words [] (lower text))"
  let ?m = "Max (set (map snd ?f))"
  from assms have ne: "?f \<noteq> []"
    by (simp add: word_freqs_def normalize_nonempty)
  then have "?m \<in> set (map snd ?f)"
    by (intro Max_in) auto
  then obtain v where vm: "(v, ?m) \<in> set ?f" by auto
  from word_counts_entry [OF vm] have mpos: "0 < ?m" by simp
  have "(v, real ?m / real ?m) \<in> set (word_freqs text)"
    using vm ne by (force simp: word_freqs_def normalize_freqs_def Let_def)
  with mpos have one: "1 \<in> snd ` set (word_freqs text)"
    by (force simp: image_iff)
  have "\<And>y. y \<in> snd ` set (word_freqs text) \<Longrightarrow> y \<le> 1"
    using word_freqs_entry by auto
  with one show ?thesis
    by (intro Max_eqI) auto
qed

lemma word_freqs_stopword:
  assumes "v \<in> STOPWORDS"
  shows "dict_get (word_freqs text) v 0 = 0"
  using assms by (simp add: dict_get_def word_freqs_def map_of_normalize map_of_word_counts)

lemmas summarizer_eval =
  word_freqs_def normalize_freqs_def word_counts_def count_word_def STOPWORDS_def
  dict_get_def lower_def sentence_score_def

lemma freqs_ex: "word_freqs ''The cat.'' = [(''cat'', 1)]"
  by (simp add: summarizer_eval char_class_defs)

lemma map_of_rounded:
  "map_of (map (\<lambda>(w, q). (w, rnd q)) f) v = map_option rnd (map_of f v)"
  by (induction f) auto

lemma float_freqs_entry:
  "(v, y) \<in> set (float_freqs text) \<Longrightarrow> \<exists>q. (v, q) \<in> set (word_freqs text) \<and> y = rnd q"
  by (auto simp: float_freqs_def)

lemma float_freqs_nonempty: "(float_freqs text = []) = (word_freqs text = [])"
  by (simp add: float_freqs_def)

lemma word_freqs_lower_bound:
  assumes "(v, q) \<in> set (word_freqs text)"
  shows "0 < length (findall_words [] (lower text)) \<and>
         1 / real (length (findall_words [] (lower text))) \<le> q"
proof -
  let ?ws = "findall_words [] (lower text)"
  let ?f = "word_counts ?ws"
  let ?m = "Max (set (map snd ?f))"
  from assms obtain c where c: "(v, c) \<in> set ?f" and q: "q = real c / real ?m"
    unfolding word_freqs_def by (blast dest: normalize_entry)
  from word_counts_entry [OF c] have cpos: "0 < c" and vin: "v \<in> set ?ws" by simp_all
  from vin have npos: "0 < length ?ws" by (cases ?ws) auto
  from c have "?m \<in> set (map snd ?f)"
    by (intro Max_in) auto
  then obtain u where "(u, ?m) \<in> set ?f" by auto
  from word_counts_entry [OF this] have "?m = count_list ?ws u" and mpos: "0 < ?m" by simp_all
  then have mle: "?m \<le> length ?ws" by (simp add: count_le_length)
  have "1 / real (length ?ws) \<le> 1 / real ?m"
    using mle mpos by (simp add: frac_le)
  also have "\<dots> \<le> real c / real ?m"
    using cpos mpos by (simp add: divide_right_mono)
  finally show ?thesis using npos q by simp
qed

lemma float_freqs_range:
  assumes "(v, y) \<in> set (float_freqs text)"
  shows "v \<notin> STOPWORDS \<and> 0 \<le> y \<and> y \<le> 1 \<and>
         (real (length (findall_words [] (lower text))) \<le> 2 ^ 1074 \<longrightarrow> 0 < y)"
proof -
  let ?n = "length (findall_words [] (lower text))"
  from float_freqs_entry [OF assms] obtain q
    where q: "(v, q) \<in> set (word_freqs text)" and y: "y = rnd q" by blast
  from word_freqs_entry [OF q] have v: "v \<notin> STOPWORDS" and qpos: "0 < q" and qle: "q \<le> 1"
    by simp_all
  from word_freqs_lower_bound [OF q] have npos: "0 < ?n" and lb: "1 / real ?n \<le> q"
    by simp_all
  note r = rnd_unit_interval [OF qpos qle]
  have "0 < y" if n: "real ?n \<le> 2 ^ 1074"
  proof -
    have "1 / (2 ^ 1074 :: real) \<le> 1 / real ?n"
      using n npos by (intro frac_le) simp_all
    moreover have "(2::real) powi (- 1074) = 1 / 2 ^ 1074"
      by (simp only: power_int_minus power_int_numeral_neg_numeral power_int_numeral
          divide_inverse mult_1 power_int_of_nat [symmetric])
    ultimately have "2 powi (- 1074) \<le> q" using lb by (rule_tac order_trans) simp_all
    with r y show ?thesis by blast
  qed
  with v r y show ?thesis by simp
qed

lemma float_freqs_max:
  assumes "float_freqs text \<noteq> []"
  shows "Max (snd ` set (float_freqs text)) = 1"
proof -
  from assms have ne: "word_freqs text \<noteq> []"
    by (simp add: float_freqs_nonempty)
  then have "Max (snd ` set (word_freqs text)) \<in> snd ` set (word_freqs text)"
    by (intro Max_in) auto
  with word_freqs_max [OF ne] obtain v where "(v, 1) \<in> set (word_freqs text)"
    by auto
  then have "(v, rnd 1) \<in> set (float_freqs text)"
    by (force simp: float_freqs_def)
  then have one: "1 \<in> snd ` set (float_freqs text)"
    by (force simp: rnd_1)
  have "\<And>y. y \<in> snd ` set (float_freqs text) \<Longrightarrow> y \<le> 1"
    using float_freqs_range by auto
  with one show ?thesis
    by (intro Max_eqI) auto
qed

lemma float_freqs_stopword:
  assumes "w \<in> STOPWORDS"
  shows "dict_get (float_freqs text) w 0 = 0"
proof -
  have "dict_get (float_freqs text) w 0 = rnd (dict_get (word_freqs text) w 0)"
    by (simp add: dict_get_def float_freqs_def map_of_rounded rnd_zero split: option.splits)
  with assms show ?thesis
    by (simp add: word_freqs_stopword rnd_zero)
qed

lemma float_freqs_ex: "float_freqs ''The cat.'' = [(''cat'', 1)]"
  by (simp add: float_freqs_def freqs_ex rnd_1)

text \<open>
  C4. No key of the frequency table is a stopword, every value lies in \<open>(0, 1]\<close>, the
  largest value of a non-empty table is 1, and a stopword adds 0 to a score: the sum
  over the words of a sentence is the sum over its words that are no stopwords. The
  same holds of the floats that the program stores: rounding leaves 1 at 1 and every
  quotient in \<open>[0, 1]\<close>, and above 0 as long as the text has no more than \<open>2 ^ 1074\<close>
  words, so that no quotient underflows.
\<close>

theorem word_freqs_normalized:
  "((v, x) \<in> set (word_freqs text) \<longrightarrow> v \<notin> STOPWORDS \<and> 0 < x \<and> x \<le> 1) \<and>
   (word_freqs text \<noteq> [] \<longrightarrow> Max (snd ` set (word_freqs text)) = 1) \<and>
   (w \<in> STOPWORDS \<longrightarrow> dict_get (word_freqs text) w 0 = 0) \<and>
   (\<Sum>u\<leftarrow>ws. dict_get (word_freqs text) u 0) =
     (\<Sum>u\<leftarrow>filter (\<lambda>u. u \<notin> STOPWORDS) ws. dict_get (word_freqs text) u 0) \<and>
   ((v', y) \<in> set (float_freqs text) \<longrightarrow>
      v' \<notin> STOPWORDS \<and> 0 \<le> y \<and> y \<le> 1 \<and>
      (real (length (findall_words [] (lower text))) \<le> 2 ^ 1074 \<longrightarrow> 0 < y)) \<and>
   (float_freqs text \<noteq> [] \<longrightarrow> Max (snd ` set (float_freqs text)) = 1) \<and>
   (w \<in> STOPWORDS \<longrightarrow> dict_get (float_freqs text) w 0 = 0)"
proof -
  have "(\<Sum>u\<leftarrow>ws. dict_get (word_freqs text) u 0) =
     (\<Sum>u\<leftarrow>filter (\<lambda>u. u \<notin> STOPWORDS) ws. dict_get (word_freqs text) u 0)"
    by (induction ws) (simp_all add: word_freqs_stopword)
  then show ?thesis
    using word_freqs_entry [of v x "text"] word_freqs_max [of "text"]
      word_freqs_stopword [of w "text"] float_freqs_range [of v' y "text"]
      float_freqs_max [of "text"] float_freqs_stopword [of w "text"]
    by blast
qed

lemma words_ex: "findall_words [] (lower ''The cat.'') = [''the'', ''cat'']"
  by (simp add: lower_def char_class_defs)

theorem word_freqs_normalized_witness:
  "(''cat'', 1) \<in> set (word_freqs ''The cat.'') \<and> ''cat'' \<notin> STOPWORDS \<and>
   word_freqs ''The cat.'' \<noteq> [] \<and> Max (snd ` set (word_freqs ''The cat.'')) = 1 \<and>
   ''the'' \<in> STOPWORDS \<and> dict_get (word_freqs ''The cat.'') ''the'' 0 = 0 \<and>
   (\<Sum>u\<leftarrow>[''the'', ''cat'']. dict_get (word_freqs ''The cat.'') u 0) =
     dict_get (word_freqs ''The cat.'') ''cat'' 0 \<and>
   (''cat'', 1) \<in> set (float_freqs ''The cat.'') \<and>
   real (length (findall_words [] (lower ''The cat.''))) \<le> 2 ^ 1074 \<and>
   float_freqs ''The cat.'' \<noteq> [] \<and> Max (snd ` set (float_freqs ''The cat.'')) = 1 \<and>
   dict_get (float_freqs ''The cat.'') ''the'' 0 = 0"
proof -
  have a: "(''cat'', 1) \<in> set (word_freqs ''The cat.'')"
    by (simp add: freqs_ex)
  have b: "word_freqs ''The cat.'' \<noteq> []"
    by (simp add: freqs_ex)
  have c: "''the'' \<in> STOPWORDS"
    by (simp add: STOPWORDS_def)
  have d: "''cat'' \<notin> STOPWORDS"
    by (simp add: STOPWORDS_def)
  have e: "(''cat'', 1) \<in> set (float_freqs ''The cat.'')"
    by (simp add: float_freqs_ex)
  have f: "float_freqs ''The cat.'' \<noteq> []"
    by (simp add: float_freqs_ex)
  have g: "real (length (findall_words [] (lower ''The cat.''))) \<le> 2 ^ 1074"
    by (simp add: words_ex)
  show ?thesis
    using a b c d e f g
      word_freqs_normalized [of "''cat''" 1 "''The cat.''" "''the''" "[''the'', ''cat'']" "''cat''" 1]
    by simp
qed

section \<open>Scores and selection\<close>

lemma sqrt_pow_1: "sqrt_pow 1 = 1"
  by (simp add: sqrt_pow_def rnd_1)

lemma sqrt_pow_4: "sqrt_pow 4 = 2"
  by (simp add: sqrt_pow_def rnd_2)

lemma split_Hi_Yo: "split_sentences ''Hi. Yo!'' = [''Hi.'', ''Yo!'']"
  by (simp add: split_sentences_eval)

lemma split_cat: "split_sentences ''Cat cat cat the. Cat.'' = [''Cat cat cat the.'', ''Cat.'']"
  by (simp add: split_sentences_eval)

lemma freqs_cat: "word_freqs ''Cat cat cat the. Cat.'' = [(''cat'', 1)]"
  by (simp add: summarizer_eval char_class_defs)

lemma float_freqs_cat: "float_freqs ''Cat cat cat the. Cat.'' = [(''cat'', 1)]"
  by (simp add: float_freqs_def freqs_cat rnd_1)

lemma words_cat: "findall_words [] (lower ''Cat cat cat the.'') = [''cat'', ''cat'', ''cat'', ''the'']"
  by (simp add: lower_def char_class_defs)

lemma score_cat:
  "pow_half 4 = 2 \<Longrightarrow> sentence_score pow_half [(''cat'', 1)] ''Cat cat cat the.'' = 3 / 2"
  by (simp add: sentence_score_def words_cat dict_get_def rnd_1 rnd_2 rnd_3 rnd_3_2
      eval_nat_numeral)

lemma score_cat2: "pow_half 1 = 1 \<Longrightarrow> sentence_score pow_half [(''cat'', 1)] ''Cat.'' = 1"
  by (simp add: sentence_score_def lower_def char_class_defs dict_get_def rnd_1)

lemma score_cat_sqrt: "sentence_score sqrt_pow [(''cat'', 1)] ''Cat cat cat the.'' = 3 / 2"
  using sqrt_pow_4 by (rule score_cat)

lemma score_cat2_sqrt: "sentence_score sqrt_pow [(''cat'', 1)] ''Cat.'' = 1"
  using sqrt_pow_1 by (rule score_cat2)

lemma summ_cat:
  "summarize_text sqrt_pow ''Cat cat cat the. Cat.'' (Fin (1 / 2)) 1 = Inr [''Cat cat cat the.'']"
  by (simp add: summarize_text_def split_cat float_freqs_cat score_cat_sqrt score_cat2_sqrt
      to_double_1 sorted_reverse_def slice_to_def Let_def)

lemma split_hi: "split_sentences ''Hi. Hi.'' = [''Hi.'', ''Hi.'']"
  by (simp add: split_sentences_eval)

lemma summ_hi:
  "summarize_text pow_half ''Hi. Hi.'' (Fin (1 / 2)) 1 = Inr [''Hi.'', ''Hi.'']"
  by (simp add: summarize_text_def split_hi to_double_1 sorted_reverse_def slice_to_def Let_def)

lemma insort_key_map:
  "insort_key g (h x) (map h ys) = map h (insort_key (\<lambda>y. g (h y)) x ys)"
  by (induction ys) simp_all

lemma sort_key_map: "sort_key g (map h xs) = map h (sort_key (\<lambda>y. g (h y)) xs)"
  by (induction xs) (simp_all add: insort_key_map)

lemma sorted_reverse_scores:
  "sorted_reverse snd (map (\<lambda>s. (s, f s)) xs) = map (\<lambda>s. (s, f s)) (sorted_reverse f xs)"
  by (simp add: sorted_reverse_def sort_key_map)

lemma slice_to_map: "slice_to k (map h xs) = map h (slice_to k xs)"
  by (simp add: slice_to_def take_map)

lemma summarize_text_select:
  "summarize_text pow_half text ratio min_sentences =
     (let sentences = split_sentences text
      in if int (length sentences) \<le> min_sentences then Inr sentences
         else case math_ceil (fmul (real (length sentences)) ratio) of
                Inl e \<Rightarrow> Inl e
              | Inr c \<Rightarrow>
                  Inr (filter (\<lambda>s. s \<in> set (slice_to
                         (min (max min_sentences c) (int (length sentences)))
                         (sorted_reverse (sentence_score pow_half (float_freqs text)) sentences)))
                       sentences))"
  by (simp add: summarize_text_def Let_def sorted_reverse_scores slice_to_map image_image
      split: sum.splits)







lemma select_length:
  assumes "distinct xs"
  shows "length (filter (\<lambda>s. s \<in> set (take j (sort_key g xs))) xs) = min j (length xs)"
proof -
  let ?top = "take j (sort_key g xs)"
  have d: "distinct ?top" using assms by simp
  have sub: "set ?top \<subseteq> set xs"
    using set_take_subset [of j "sort_key g xs"] by simp
  have "length (filter (\<lambda>s. s \<in> set ?top) xs) = card ({s. s \<in> set ?top} \<inter> set xs)"
    using assms by (rule distinct_length_filter)
  also have "{s. s \<in> set ?top} \<inter> set xs = set ?top" using sub by auto
  also have "card (set ?top) = length ?top" using d by (rule distinct_card)
  finally show ?thesis by simp
qed

lemma summarize_text_length_distinct:
  assumes "min_sentences < int (length (split_sentences text))"
    and "distinct (split_sentences text)"
    and "math_ceil (fmul (real (length (split_sentences text))) ratio) = Inr c"
    and "0 \<le> min (max min_sentences c) (int (length (split_sentences text)))"
  shows "\<exists>out. summarize_text pow_half text ratio min_sentences = Inr out \<and>
           int (length out) = min (max min_sentences c) (int (length (split_sentences text)))"
  using assms
  by (simp add: summarize_text_select Let_def slice_to_def sorted_reverse_def select_length)

text \<open>
  C2. The list that \<open>summarize_text\<close> returns is a subsequence of the list of sentences
  of the input: only sentences of the input, in the order of the input.
\<close>

theorem summarize_text_subseq:
  "summarize_text pow_half text ratio min_sentences = Inr out \<Longrightarrow>
     subseq out (split_sentences text)"
  by (auto simp: summarize_text_def Let_def split: if_splits sum.splits)

theorem summarize_text_subseq_witness:
  "summarize_text sqrt_pow ''Cat cat cat the. Cat.'' (Fin (1 / 2)) 1 = Inr [''Cat cat cat the.''] \<and>
   subseq [''Cat cat cat the.''] (split_sentences ''Cat cat cat the. Cat.'')"
  using summarize_text_subseq [OF summ_cat] summ_cat by simp

text \<open>
  C8. A text with at most \<open>min_sentences\<close> sentences is returned whole, sentence for
  sentence.
\<close>

theorem summarize_text_short:
  "int (length (split_sentences text)) \<le> min_sentences \<Longrightarrow>
     summarize_text pow_half text ratio min_sentences = Inr (split_sentences text)"
  by (simp add: summarize_text_def Let_def)

theorem summarize_text_short_witness:
  "int (length (split_sentences ''Hi. Yo!'')) \<le> 2 \<and>
   summarize_text sqrt_pow ''Hi. Yo!'' (Fin (rnd (3 / 10))) 2 = Inr [''Hi.'', ''Yo!'']"
proof -
  have h: "int (length (split_sentences ''Hi. Yo!'')) \<le> 2"
    by (simp add: split_Hi_Yo)
  show ?thesis
    using h summarize_text_short [OF h, of sqrt_pow "Fin (rnd (3 / 10))"]
    by (simp add: split_Hi_Yo)
qed




text \<open>
  C3. The number of sentences kept is \<open>k = min(max(min_sentences, ceil(n * ratio)), n)\<close>
  when the sentences are pairwise distinct and \<open>k\<close> is not negative (lemma
  \<open>summarize_text_length_distinct\<close>). The sentences are kept by membership of their
  text in a set, so a sentence that occurs twice is kept twice: here \<open>k = 1\<close> and two
  sentences are returned, whatever \<open>n ** 0.5\<close> evaluates to.
\<close>

theorem summarize_text_duplicate_sentences:
  "split_sentences ''Hi. Hi.'' = [''Hi.'', ''Hi.''] \<and>
   math_ceil (fmul (real (length (split_sentences ''Hi. Hi.''))) (Fin (1 / 2))) = Inr 1 \<and>
   min (max 1 1) (int (length (split_sentences ''Hi. Hi.''))) = 1 \<and>
   summarize_text pow_half ''Hi. Hi.'' (Fin (1 / 2)) 1 = Inr [''Hi.'', ''Hi.'']"
  by (simp add: split_hi summ_hi to_double_1)

section \<open>Properties of the synonym resolver\<close>

lemma fallback_nonempty: "map_of FALLBACK_SYNS k = Some syns \<Longrightarrow> syns \<noteq> []"
  by (drule map_of_SomeD) (auto simp: FALLBACK_SYNS_def)

lemma random_choice_ok: "xs \<noteq> [] \<Longrightarrow> \<exists>x g'. random_choice xs g = (Inr x, g')"
  by (simp add: random_choice_def randbelow_def)

lemma synonym_for_ok: "\<exists>s g'. synonym_for U wn word g = (Inr s, g')"
  using random_choice_ok [OF fallback_nonempty]
  by (auto simp: synonym_for_def split: option.splits)

lemma endswith_iff: "endswith s suf = (\<exists>stem. s = stem @ suf)"
  unfolding endswith_def
  by (metis append_eq_conv_conj append_take_drop_id diff_add_inverse2 length_append le_add2 length_drop)

lemma map_of_fallback_None: "lower word \<notin> fst ` set FALLBACK_SYNS \<Longrightarrow> map_of FALLBACK_SYNS (lower word) = None"
  by (simp add: map_of_eq_None_iff)

lemma synonym_for_unavailable:
  assumes "\<not> USE_NLTK \<or> synsets word = Raises"
  shows "synonym_for USE_NLTK synsets word g =
     (case map_of FALLBACK_SYNS (lower word) of
        Some syns \<Rightarrow> random_choice syns g
      | None \<Rightarrow>
          if endswith word ''ing'' \<and> length word > 4 then (Inr (slice_to (- 3) word), g)
          else (Inr word, g))"
proof -
  have "(if USE_NLTK then wordnet_synonym synsets word else None) = None"
    using assms by (auto simp: wordnet_synonym_def)
  then show ?thesis
    unfolding synonym_for_def by simp
qed

text \<open>
  C10. When WordNet is unavailable (the import failed, or the lookup raises),
  \<open>synonym_for\<close> returns a string and raises nothing. For a word whose lower-case form
  is no key of the fallback thesaurus it returns the word without its final \<open>ing\<close>
  when the word ends in \<open>ing\<close> and has more than 4 characters, and the word itself
  otherwise; the generator is not used.
\<close>

theorem synonym_for_fallback:
  assumes "\<not> USE_NLTK \<or> synsets word = Raises"
  shows "(\<exists>s g'. synonym_for USE_NLTK synsets word g = (Inr s, g')) \<and>
         (lower word \<notin> fst ` set FALLBACK_SYNS \<longrightarrow>
            (word = stem @ ''ing'' \<and> 4 < length word \<longrightarrow>
               synonym_for USE_NLTK synsets word g = (Inr stem, g)) \<and>
            ((\<nexists>st. word = st @ ''ing'') \<or> length word \<le> 4 \<longrightarrow>
               synonym_for USE_NLTK synsets word g = (Inr word, g)))"
proof -
  have eq: "synonym_for USE_NLTK synsets word g =
     (case map_of FALLBACK_SYNS (lower word) of
        Some syns \<Rightarrow> random_choice syns g
      | None \<Rightarrow>
          if endswith word ''ing'' \<and> length word > 4 then (Inr (slice_to (- 3) word), g)
          else (Inr word, g))"
    using assms by (rule synonym_for_unavailable)
  have a: "\<exists>s g'. synonym_for USE_NLTK synsets word g = (Inr s, g')"
    by (rule synonym_for_ok)
  have b: "synonym_for USE_NLTK synsets word g = (Inr stem, g)"
    if "lower word \<notin> fst ` set FALLBACK_SYNS" "word = stem @ ''ing''" "4 < length word"
    using that map_of_fallback_None [OF that(1)] unfolding eq
    by (simp add: endswith_iff slice_to_def)
  have c: "synonym_for USE_NLTK synsets word g = (Inr word, g)"
    if "lower word \<notin> fst ` set FALLBACK_SYNS" "(\<nexists>st. word = st @ ''ing'') \<or> length word \<le> 4"
    using that map_of_fallback_None [OF that(1)] unfolding eq
    by (auto simp add: endswith_iff)
  show ?thesis using a b c by blast
qed

lemma lower_running: "lower ''running'' = ''running''"
  by (simp add: lower_def char_class_defs)

lemma running_absent: "lower ''running'' \<notin> fst ` set FALLBACK_SYNS"
  by (simp add: lower_running FALLBACK_SYNS_def)

theorem synonym_for_fallback_witness:
  "\<not> False \<and>
   lower ''running'' \<notin> fst ` set FALLBACK_SYNS \<and>
   ''running'' = ''runn'' @ ''ing'' \<and> 4 < length ''running'' \<and>
   synonym_for False (\<lambda>w. Raises) ''running'' (sconst 0) = (Inr ''runn'', sconst 0)"
  using synonym_for_fallback [where USE_NLTK = False and synsets = "\<lambda>w. Raises"
      and word = "''running''" and stem = "''runn''" and g = "sconst 0"] running_absent
  by simp

section \<open>Properties of the paraphraser\<close>

lemma random_nonneg: "0 \<le> fst (random_random g)"
  by (simp add: random_random_def)

lemma concat_findall_tokens: "concat (findall_tokens acc s) = rev acc @ s"
  by (induction s arbitrary: acc) (auto split: list.splits)

lemma paraphrase_tokens_zero:
  "\<exists>g'. paraphrase_tokens USE_NLTK synsets (Fin 0) ts g = (Inr ts, g')"
proof (induction ts arbitrary: g)
  case Nil
  show ?case by simp
next
  case (Cons t ts)
  obtain r g1 where r: "random_random g = (r, g1)"
    by (cases "random_random g")
  with random_nonneg [of g] have nn: "\<not> r < 0" by simp
  from Cons [of g] obtain ga where a: "paraphrase_tokens USE_NLTK synsets (Fin 0) ts g = (Inr ts, ga)" by blast
  from Cons [of g1] obtain gb where b: "paraphrase_tokens USE_NLTK synsets (Fin 0) ts g1 = (Inr ts, gb)" by blast
  show ?case
    using r nn a b by (simp add: append_result_def)
qed

lemma paraphrase_sentences_zero:
  "\<exists>g'. paraphrase_sentences USE_NLTK synsets (Fin 0) ss g = (Inr ss, g')"
proof (induction ss arbitrary: g)
  case Nil
  show ?case by simp
next
  case (Cons s ss)
  obtain g1 where a: "paraphrase_tokens USE_NLTK synsets (Fin 0) (findall_tokens [] s) g = (Inr (findall_tokens [] s), g1)"
    using paraphrase_tokens_zero by blast
  from Cons [of g1] obtain g2 where b: "paraphrase_sentences USE_NLTK synsets (Fin 0) ss g1 = (Inr ss, g2)" by blast
  show ?case
    using a b by (simp add: append_result_def concat_findall_tokens)
qed

lemma paraphrase_tokens_keeps:
  "paraphrase_tokens USE_NLTK synsets strength ts g = (Inr out, g') \<Longrightarrow>
     length out = length ts \<and> (\<forall>i < length ts. \<not> match_word (ts ! i) \<longrightarrow> out ! i = ts ! i)"
proof (induction ts arbitrary: g out g')
  case Nil
  then show ?case by simp
next
  case (Cons t ts)
  from Cons.prems obtain x rest g0 where
    rest: "paraphrase_tokens USE_NLTK synsets strength ts g0 = (Inr rest, g')"
    and out: "out = x # rest" and x: "\<not> match_word t \<longrightarrow> x = t"
    by (auto simp: append_result_def split: if_splits prod.splits sum.splits)
  from Cons.IH [OF rest] have ih: "length rest = length ts"
    "\<forall>i < length ts. \<not> match_word (ts ! i) \<longrightarrow> rest ! i = ts ! i" by auto
  show ?case
  proof (intro conjI allI impI)
    show "length out = length (t # ts)" using out ih by simp
  next
    fix i assume "i < length (t # ts)" "\<not> match_word ((t # ts) ! i)"
    then show "out ! i = (t # ts) ! i"
      using out x ih by (cases i) auto
  qed
qed

text \<open>
  C6. With strength 0 no word token is replaced and the sentences are not shuffled:
  \<open>paraphrase_text\<close> returns the sentences of the input, unchanged, joined by single
  spaces. The tokens of a sentence concatenate to the sentence, and at any strength a
  token that is not a word token is passed on unchanged, at its position.
\<close>

theorem paraphrase_text_strength_zero:
  "(\<exists>g'. paraphrase_text USE_NLTK synsets text (Fin 0) g = (Inr (join '' '' (split_sentences text)), g')) \<and>
   (\<exists>g'. paraphrase_tokens USE_NLTK synsets (Fin 0) (findall_tokens [] s) g = (Inr (findall_tokens [] s), g')) \<and>
   concat (findall_tokens [] s) = s \<and>
   (paraphrase_tokens USE_NLTK synsets strength ts g = (Inr out, gout) \<longrightarrow>
      length out = length ts \<and> (\<forall>i < length ts. \<not> match_word (ts ! i) \<longrightarrow> out ! i = ts ! i))"
proof -
  obtain g1 where a: "paraphrase_sentences USE_NLTK synsets (Fin 0) (split_sentences text) g = (Inr (split_sentences text), g1)"
    using paraphrase_sentences_zero by blast
  obtain r g2 where r: "random_random g1 = (r, g2)"
    by (cases "random_random g1")
  with random_nonneg [of g1] have nn: "\<not> r < 0" by simp
  have h1: "\<exists>g'. paraphrase_text USE_NLTK synsets text (Fin 0) g = (Inr (join '' '' (split_sentences text)), g')"
    using a r nn by (simp add: paraphrase_text_def Let_def to_double_zero)
  have h2: "\<exists>g'. paraphrase_tokens USE_NLTK synsets (Fin 0) (findall_tokens [] s) g = (Inr (findall_tokens [] s), g')"
    by (rule paraphrase_tokens_zero)
  have h3: "concat (findall_tokens [] s) = s"
    by (simp add: concat_findall_tokens)
  show ?thesis
    using h1 h2 h3 paraphrase_tokens_keeps [of USE_NLTK synsets strength ts g out gout]
    by blast
qed

lemma split_ex: "split_sentences ''Good one. Go!'' = [''Good one.'', ''Go!'']"
  by (simp add: split_sentences_eval)

lemma tokens_ex: "findall_tokens [] ''Good one.'' = [''Good'', '' '', ''one'', ''.'']"
  by (simp add: char_class_defs)

lemma para_ex: "paraphrase_tokens False (\<lambda>w. Raises) (Fin 1) [''Good'', ''!''] (sconst 0) = (Inr [''Great'', ''!''], sconst 0)"
  by (simp add: match_word_def random_random_def synonym_for_def lower_def FALLBACK_SYNS_def
      random_choice_def randbelow_def capitalize_def append_result_def char_class_defs)

theorem paraphrase_text_strength_zero_witness:
  "(\<exists>g'. paraphrase_text False (\<lambda>w. Raises) ''Good one. Go!'' (Fin 0) (sconst 0) = (Inr ''Good one. Go!'', g')) \<and>
   (\<exists>g'. paraphrase_tokens False (\<lambda>w. Raises) (Fin 0) [''Good'', '' '', ''one'', ''.''] (sconst 0) =
      (Inr [''Good'', '' '', ''one'', ''.''], g')) \<and>
   concat [''Good'', '' '', ''one'', ''.''] = ''Good one.'' \<and>
   paraphrase_tokens False (\<lambda>w. Raises) (Fin 1) [''Good'', ''!''] (sconst 0) = (Inr [''Great'', ''!''], sconst 0) \<and>
   (1::nat) < length [''Good'', ''!''] \<and> \<not> match_word ([''Good'', ''!''] ! 1) \<and>
   [''Great'', ''!''] ! 1 = [''Good'', ''!''] ! 1"
  using paraphrase_text_strength_zero [of False "\<lambda>w. Raises" "''Good one. Go!''" "sconst 0"
      "''Good one.''" "Fin 1" "[''Good'', ''!'']" "[''Great'', ''!'']" "sconst 0"] para_ex
  by (simp add: split_ex tokens_ex join_def match_word_def char_class_defs)

section \<open>Properties of the endpoints\<close>










end
